theory Spec2Isabelle
  imports Complex_Main "HOL-Library.Multiset"
begin

section \<open>The audio segment permutation codec\<close>

text \<open>
  A shallow embedding of \<^verbatim>\<open>src/components/AudioProcessor.tsx\<close> (the encoder, the
  decoder and the descriptor codec) and of the segmenter of
  \<^verbatim>\<open>src/components/AudioEditor.tsx\<close>.

  Conventions of the embedding:
  \<^item> A JavaScript \<^verbatim>\<open>number\<close> that is finite is a \<^typ>\<open>real\<close> and arithmetic on it is
    exact: the rounding of IEEE-754 doubles is not modelled. The non-finite results the
    code can produce (a division by zero, a failed \<^verbatim>\<open>parseFloat\<close>) are the other
    constructors of the type \<open>number\<close>. Signed zeros are not distinguished.
  \<^item> A JavaScript string is a \<^typ>\<open>string\<close>; only characters below 256 occur.
  \<^item> An array with holes (\<^verbatim>\<open>new Array(n)\<close>) is a list of options; a hole is \<^const>\<open>None\<close>.
  \<^item> React state read by a function is an argument; state it sets is returned.
\<close>

subsection \<open>Numbers and strings of the host language\<close>

datatype EncodingType = none | split | oddEven

datatype number = Num real | PosInf | NegInf | NaN

text \<open>Division of two finite numbers; a zero divisor gives an infinity or \<open>NaN\<close>.\<close>

definition js_div :: "real \<Rightarrow> real \<Rightarrow> number" where
  "js_div a b =
     (if b = 0 then (if 0 < a then PosInf else if a < 0 then NegInf else NaN)
      else Num (a / b))"

text \<open>\<^verbatim>\<open>Math.ceil\<close> and \<^verbatim>\<open>Math.floor\<close>: the non-finite values are fixed points.\<close>

fun js_ceil :: "number \<Rightarrow> number" where
  "js_ceil (Num x) = Num (of_int \<lceil>x\<rceil>)"
| "js_ceil PosInf = PosInf"
| "js_ceil NegInf = NegInf"
| "js_ceil NaN = NaN"


text \<open>The comparison \<^verbatim>\<open>i < n\<close> of a loop counter with a number; false on \<open>NaN\<close>.\<close>

fun js_less :: "nat \<Rightarrow> number \<Rightarrow> bool" where
  "js_less i (Num x) = (of_nat i < x)"
| "js_less i PosInf = True"
| "js_less i NegInf = False"
| "js_less i NaN = False"


definition is_digit :: "char \<Rightarrow> bool" where
  "is_digit c = (c \<in> set ''0123456789'')"

definition digit_val :: "char \<Rightarrow> nat" where
  "digit_val c = of_char c - 48"

definition digit_char :: "nat \<Rightarrow> char" where
  "digit_char d = ''0123456789'' ! d"

definition is_hex_digit :: "char \<Rightarrow> bool" where
  "is_hex_digit c = (c \<in> set ''0123456789abcdefABCDEF'')"

definition hex_val :: "char \<Rightarrow> nat" where
  "hex_val c =
     (if is_digit c then of_char c - 48
      else if c \<in> set ''abcdef'' then of_char c - 87
      else of_char c - 55)"

text \<open>
  The white space that \<^verbatim>\<open>parseInt\<close> and \<^verbatim>\<open>parseFloat\<close> skip: tab, line feed,
  vertical tab, form feed, carriage return, space and the no-break space.
\<close>

definition is_space :: "char \<Rightarrow> bool" where
  "is_space c = ((of_char c :: nat) \<in> set [9, 10, 11, 12, 13, 32, 160])"

text \<open>The value of a string of decimal digits, and of the digits after a decimal point.\<close>

definition digits_value :: "string \<Rightarrow> nat" where
  "digits_value ds = foldl (\<lambda>acc c. 10 * acc + digit_val c) 0 ds"

definition hex_value :: "string \<Rightarrow> nat" where
  "hex_value ds = foldl (\<lambda>acc c. 16 * acc + hex_val c) 0 ds"

fun frac_value :: "string \<Rightarrow> real" where
  "frac_value [] = 0"
| "frac_value (c # cs) = (of_nat (digit_val c) + frac_value cs) / 10"

text \<open>\<^verbatim>\<open>String.prototype.split\<close> with a one-character separator.\<close>

fun split_on :: "char \<Rightarrow> string \<Rightarrow> string list" where
  "split_on sep [] = [[]]"
| "split_on sep (c # cs) =
     (if c = sep then [] # split_on sep cs
      else (c # hd (split_on sep cs)) # tl (split_on sep cs))"

text \<open>
  \<^verbatim>\<open>parseInt(s)\<close> with no radix: leading white space, a sign, the prefix \<^verbatim>\<open>0x\<close> for
  radix 16, then the longest prefix of digits; \<open>None\<close> is \<open>NaN\<close> (no digit at all).
  Whatever follows the digits is ignored.
\<close>

definition parseInt :: "string \<Rightarrow> int option" where
  "parseInt s =
     (let s1 = dropWhile is_space s;
          neg = (take 1 s1 = ''-'');
          s2 = (if take 1 s1 = ''-'' \<or> take 1 s1 = ''+'' then drop 1 s1 else s1);
          hex = (take 2 s2 = ''0x'' \<or> take 2 s2 = ''0X'');
          s3 = (if hex then drop 2 s2 else s2);
          ds = (if hex then takeWhile is_hex_digit s3 else takeWhile is_digit s3);
          v = (if hex then hex_value ds else digits_value ds)
      in if ds = [] then None
         else Some (if neg then - int v else int v))"

text \<open>
  \<^verbatim>\<open>parseFloat(s)\<close>: leading white space, then the longest prefix that is a decimal
  literal: a sign, then \<^verbatim>\<open>Infinity\<close> or digits with an optional fraction and an
  optional exponent. Whatever follows that prefix is ignored; with no such prefix the
  result is \<open>NaN\<close>.
\<close>

definition scale10 :: "real \<Rightarrow> int \<Rightarrow> real" where
  "scale10 x e = (if 0 \<le> e then x * 10 ^ nat e else x / 10 ^ nat (- e))"

definition exponent_part :: "string \<Rightarrow> int" where
  "exponent_part r =
     (if take 1 r = ''e'' \<or> take 1 r = ''E'' then
        (let r1 = drop 1 r;
             neg = (take 1 r1 = ''-'');
             r2 = (if take 1 r1 = ''-'' \<or> take 1 r1 = ''+'' then drop 1 r1 else r1);
             ds = takeWhile is_digit r2
         in if ds = [] then 0
            else if neg then - int (digits_value ds) else int (digits_value ds))
      else 0)"

definition parseFloat :: "string \<Rightarrow> number" where
  "parseFloat s =
     (let s1 = dropWhile is_space s;
          neg = (take 1 s1 = ''-'');
          s2 = (if take 1 s1 = ''-'' \<or> take 1 s1 = ''+'' then drop 1 s1 else s1)
      in if take 8 s2 = ''Infinity'' then (if neg then NegInf else PosInf)
         else
           (let ip = takeWhile is_digit s2;
                r1 = dropWhile is_digit s2;
                dot = (take 1 r1 = ''.'');
                fp = (if dot then takeWhile is_digit (drop 1 r1) else []);
                r2 = (if dot then dropWhile is_digit (drop 1 r1) else r1);
                m = scale10 (of_nat (digits_value ip) + frac_value fp) (exponent_part r2)
            in if ip = [] \<and> fp = [] then NaN
               else Num (if neg then - m else m)))"

text \<open>
  Number-to-string conversion (a template literal \<^verbatim>\<open>${x}\<close>) of a finite number
  \<open>x \<ge> 0\<close>, in the range where the language prints plain decimal notation
  (\<open>x = 0\<close> or \<open>10\<^sup>-\<^sup>6 \<le> x < 10\<^sup>2\<^sup>1\<close>): the integer part, then a point and the fraction
  digits when the fraction is not zero. The language prints the shortest decimal that
  reads back as the same double; in the exact arithmetic of this embedding a number is
  that decimal. The result is \<open>None\<close> outside the modelled range: a negative number,
  exponent notation, or a fraction that does not end within 25 digits.
\<close>

fun nat_to_string :: "nat \<Rightarrow> string" where
  "nat_to_string n =
     (if n < 10 then [digit_char n]
      else nat_to_string (n div 10) @ [digit_char (n mod 10)])"

declare nat_to_string.simps [simp del]

fun frac_digits :: "nat \<Rightarrow> real \<Rightarrow> string option" where
  "frac_digits 0 f = (if f = 0 then Some [] else None)"
| "frac_digits (Suc k) f =
     (if f = 0 then Some []
      else map_option (\<lambda>ds. digit_char (nat \<lfloor>f * 10\<rfloor>) # ds)
             (frac_digits k (f * 10 - of_int \<lfloor>f * 10\<rfloor>)))"

definition number_to_string :: "real \<Rightarrow> string option" where
  "number_to_string x =
     (if x = 0 then Some ''0''
      else if x < 1 / 10 ^ 6 \<or> 10 ^ 21 \<le> x then None
      else (case frac_digits 25 (x - of_int \<lfloor>x\<rfloor>) of
              None \<Rightarrow> None
            | Some fs \<Rightarrow>
                Some (nat_to_string (nat \<lfloor>x\<rfloor>) @ (if fs = [] then [] else ''.'' @ fs))))"

subsection \<open>The descriptor codec\<close>

text \<open>The encoder's parameters, as the component's state holds them.\<close>

record EncodeState =
  encodingType :: EncodingType
  numberOfParts :: nat
  interval :: real
  isReversed :: bool

text \<open>The decoder's parameters, set by the parser.\<close>

record DecodeState =
  decodingType :: EncodingType
  decodeNumberOfParts :: nat
  decodeInterval :: real
  isDecodeReversed :: bool

text \<open>
  \<^verbatim>\<open>generateEncodingCode\<close>: the empty string for the type \<open>none\<close>; otherwise the
  type prefix, \<^verbatim>\<open>b\<close> and the parts (nothing after the \<^verbatim>\<open>b\<close> for \<open>oddEven\<close>),
  \<^verbatim>\<open>b\<close> and the interval, and \<^verbatim>\<open>t\<close> or \<^verbatim>\<open>f\<close>.
\<close>

definition generateEncodingCode :: "EncodeState \<Rightarrow> string option" where
  "generateEncodingCode st =
     (let typePrefix =
            (if encodingType st = split then ''s''
             else if encodingType st = oddEven then ''oe'' else [])
      in if typePrefix = [] then Some []
         else
           (case (if encodingType st = split
                  then map_option (\<lambda>p. ''b'' @ p) (number_to_string (of_nat (numberOfParts st)))
                  else Some ''b'') of
              None \<Rightarrow> None
            | Some partsCode \<Rightarrow>
                (case number_to_string (interval st) of
                   None \<Rightarrow> None
                 | Some i \<Rightarrow>
                     Some (typePrefix @ partsCode @ (''b'' @ i)
                           @ (if isReversed st then ''t'' else ''f'')))))"

text \<open>
  \<^verbatim>\<open>parseEncodingCode\<close> returns \<^verbatim>\<open>false\<close> at the first check that fails and sets
  the decoder's state only when every check has passed. The checks, in the source's order,
  are named here by the error each one stands for.
\<close>

datatype ParseError =
  MalformedCode | InvalidReverseFlag | IntervalOutOfRange | PartsOutOfRange | UnknownType

record Parsed =
  p_type :: EncodingType
  p_parts :: "nat option"
  p_interval :: real
  p_reverse :: bool

definition interval_check :: "number \<Rightarrow> real option" where
  "interval_check n =
     (case n of
        Num x \<Rightarrow> (if x < 1 / 1000 \<or> 10 < x then None else Some x)
      | PosInf \<Rightarrow> None | NegInf \<Rightarrow> None | NaN \<Rightarrow> None)"

definition parts_check :: "int option \<Rightarrow> nat option" where
  "parts_check n =
     (case n of
        None \<Rightarrow> None
      | Some p \<Rightarrow> (if p < 2 \<or> 10 < p then None else Some (nat p)))"

definition parse_checks :: "string \<Rightarrow> ParseError + Parsed" where
  "parse_checks code =
     (let parts = split_on CHR ''b'' code in
      if length parts \<noteq> 3 then Inl MalformedCode
      else
        (let type = parts ! 0; partsStr = parts ! 1; intervalWithReverse = parts ! 2 in
         if type = [] \<or> intervalWithReverse = [] then Inl MalformedCode
         else
           (let reverse = [last intervalWithReverse] in
            if reverse \<noteq> ''t'' \<and> reverse \<noteq> ''f'' then Inl InvalidReverseFlag
            else
              (case interval_check (parseFloat (butlast intervalWithReverse)) of
                 None \<Rightarrow> Inl IntervalOutOfRange
               | Some i \<Rightarrow>
                   if type = ''s'' then
                     (case parts_check (parseInt partsStr) of
                        None \<Rightarrow> Inl PartsOutOfRange
                      | Some p \<Rightarrow>
                          Inr \<lparr>p_type = split, p_parts = Some p, p_interval = i,
                               p_reverse = (reverse = ''t'')\<rparr>)
                   else if type = ''oe'' then
                     (if partsStr \<noteq> [] then Inl MalformedCode
                      else Inr \<lparr>p_type = oddEven, p_parts = None, p_interval = i,
                                p_reverse = (reverse = ''t'')\<rparr>)
                   else Inl UnknownType))))"

definition parseEncodingCode :: "string \<Rightarrow> DecodeState \<Rightarrow> bool \<times> DecodeState" where
  "parseEncodingCode code st =
     (case parse_checks code of
        Inl e \<Rightarrow> (False, st)
      | Inr p \<Rightarrow>
          (True,
           st\<lparr>decodingType := p_type p,
              decodeNumberOfParts :=
                (case p_parts p of None \<Rightarrow> decodeNumberOfParts st | Some k \<Rightarrow> k),
              decodeInterval := p_interval p,
              isDecodeReversed := p_reverse p\<rparr>))"

text \<open>The decoder's state when the component is first rendered.\<close>

definition initial_decode_state :: DecodeState where
  "initial_decode_state =
     \<lparr>decodingType = none, decodeNumberOfParts = 2, decodeInterval = 1,
      isDecodeReversed = False\<rparr>"

subsection \<open>Arrays of the host language\<close>

text \<open>
  \<^verbatim>\<open>Math.ceil(a / b)\<close> for two array lengths, \<open>b > 0\<close>. (With \<open>b = 0\<close> the source
  gets an infinity or \<open>NaN\<close>; the functions below say what they do then.)
\<close>

definition ceil_div :: "nat \<Rightarrow> nat \<Rightarrow> nat" where
  "ceil_div a b = (a + b - 1) div b"

text \<open>\<^verbatim>\<open>xs.slice(s, e)\<close> for indices that are not negative.\<close>

definition js_slice :: "'a list \<Rightarrow> nat \<Rightarrow> nat \<Rightarrow> 'a list" where
  "js_slice xs s e = take (e - s) (drop s xs)"

text \<open>\<^verbatim>\<open>xs.filter((_, i) => p(i))\<close>: the elements whose index satisfies \<open>p\<close>.\<close>

definition filter_index :: "(nat \<Rightarrow> bool) \<Rightarrow> 'a list \<Rightarrow> 'a list" where
  "filter_index p xs = map fst (filter (\<lambda>(x, i). p i) (zip xs [0..<length xs]))"

text \<open>
  The assignment \<^verbatim>\<open>arr[i] = v\<close> on an array with holes: past the end, the array
  grows and the slots between are holes.
\<close>

definition js_store :: "'a option list \<Rightarrow> nat \<Rightarrow> 'a \<Rightarrow> 'a option list" where
  "js_store arr i v =
     (if i < length arr then arr[i := Some v]
      else arr @ replicate (i - length arr) None @ [Some v])"

text \<open>
  \<^verbatim>\<open>xs.forEach((x, index) => { if (guard(index)) arr[pos(index)] = x })\<close>, the
  shape of the three loops of the decoder.
\<close>

definition forEach_store ::
  "(nat \<Rightarrow> bool) \<Rightarrow> (nat \<Rightarrow> nat) \<Rightarrow> 'a list \<Rightarrow> 'a option list \<Rightarrow> 'a option list" where
  "forEach_store guard pos xs arr =
     foldl (\<lambda>a (index, x). if guard index then js_store a (pos index) x else a)
       arr (enumerate 0 xs)"

text \<open>
  \<^verbatim>\<open>arr.filter(Boolean)\<close> on an array of objects with holes: the holes go, the
  objects (all of them truthy) stay in order.
\<close>

definition compact :: "'a option list \<Rightarrow> 'a list" where
  "compact arr = map the (filter (\<lambda>x. x \<noteq> None) arr)"

subsection \<open>The permutation engine\<close>

text \<open>
  The \<^verbatim>\<open>split\<close> branch of \<^verbatim>\<open>encodeAudio\<close>: the segments are cut into
  \<open>nparts\<close> slices of \<open>segmentsPerPart\<close> segments, and round \<open>i\<close> of the
  interleaving takes element \<open>i\<close> of every slice that has one. (\<^verbatim>\<open>Math.max\<close> of the
  slice lengths is at least 0 whenever a round could run; with no parts at all there is
  no slice and no round.)
\<close>

definition encode_split :: "nat \<Rightarrow> 'a list \<Rightarrow> 'a list" where
  "encode_split nparts segments =
     (let segmentsPerPart = ceil_div (length segments) nparts;
          parts = map (\<lambda>i. js_slice segments (i * segmentsPerPart)
                             (min ((i + 1) * segmentsPerPart) (length segments)))
                    [0..<nparts];
          maxLength = foldr max (map length parts) 0
      in concat (map (\<lambda>i. concat (map (\<lambda>part. if i < length part then [part ! i] else [])
                                       parts))
                   [0..<maxLength]))"

text \<open>The \<^verbatim>\<open>oddEven\<close> branch of \<^verbatim>\<open>encodeAudio\<close>.\<close>

definition encode_oddEven :: "'a list \<Rightarrow> 'a list" where
  "encode_oddEven segments =
     (let odd = filter_index (\<lambda>i. i mod 2 = 0) segments;
          even = filter_index (\<lambda>i. i mod 2 = 1) segments
      in odd @ even)"

text \<open>
  The reordering of \<^verbatim>\<open>encodeAudio\<close>; with the type \<open>none\<close> the reordered list stays
  empty.
\<close>

definition encode_reorder :: "EncodingType \<Rightarrow> nat \<Rightarrow> 'a list \<Rightarrow> 'a list" where
  "encode_reorder etype nparts segments =
     (if etype = split then encode_split nparts segments
      else if etype = oddEven then encode_oddEven segments
      else [])"

text \<open>
  The \<^verbatim>\<open>split\<close> branch of \<^verbatim>\<open>decodeAudio\<close>. With no parts at all (\<open>nparts = 0\<close>) every
  position the source computes is \<open>NaN\<close>, no slot is filled and the result is empty.
\<close>

definition decode_split :: "nat \<Rightarrow> 'a list \<Rightarrow> 'a list" where
  "decode_split nparts segments =
     (let totalSegments = length segments;
          segmentsPerPart = ceil_div totalSegments nparts;
          reorderedSegments =
            forEach_store
              (\<lambda>index. (index mod nparts) * segmentsPerPart
                          + index div nparts < totalSegments)
              (\<lambda>index. (index mod nparts) * segmentsPerPart
                          + index div nparts)
              segments (replicate totalSegments None)
      in if nparts = 0 then [] else compact reorderedSegments)"

text \<open>The \<^verbatim>\<open>oddEven\<close> branch of \<^verbatim>\<open>decodeAudio\<close>.\<close>

definition decode_oddEven :: "'a list \<Rightarrow> 'a list" where
  "decode_oddEven segments =
     (let totalSegments = length segments;
          oddCount = ceil_div totalSegments 2;
          odds = js_slice segments 0 oddCount;
          evens = drop oddCount segments;
          filled_odds =
            forEach_store (\<lambda>index. True) (\<lambda>index. index * 2) odds
              (replicate totalSegments None);
          reorderedSegments =
            forEach_store (\<lambda>index. index * 2 + 1 < totalSegments) (\<lambda>index. index * 2 + 1)
              evens filled_odds
      in compact reorderedSegments)"

definition decode_reorder :: "EncodingType \<Rightarrow> nat \<Rightarrow> 'a list \<Rightarrow> 'a list" where
  "decode_reorder etype nparts segments =
     (if etype = split then decode_split nparts segments
      else if etype = oddEven then decode_oddEven segments
      else [])"

subsection \<open>Audio buffers and segments\<close>

text \<open>
  An \<^verbatim>\<open>AudioBuffer\<close> of the Web Audio interface: its sample rate, its length in
  sample frames and the samples of each channel. Its duration is the length divided by
  the sample rate. A buffer the browser hands out has a positive sample rate, at least one
  channel, and \<open>frames\<close> samples in every channel. Samples are only copied, never
  computed with, so their type is left open; a fresh typed array is filled with zeros.
\<close>

record 'a AudioBuffer =
  sampleRate :: real
  frames :: nat
  channelData :: "'a list list"

definition numberOfChannels :: "'a AudioBuffer \<Rightarrow> nat" where
  "numberOfChannels ab = length (channelData ab)"

definition duration :: "'a AudioBuffer \<Rightarrow> real" where
  "duration ab = real (frames ab) / sampleRate ab"


text \<open>The \<^verbatim>\<open>AudioSegment\<close> of the processor: a time span and the samples per channel.\<close>

record 'a AudioSegment =
  start :: real
  endTime :: real
  data :: "'a list list"

definition MAX_SEGMENT_SIZE :: real where
  "MAX_SEGMENT_SIZE = 1024 * 1024"

text \<open>
  A \<^verbatim>\<open>for (let i = 0; i < n; i++)\<close> loop whose bound is a number: with the bound
  \<open>PosInf\<close> the loop never ends, and the function has no value (\<open>None\<close>).
\<close>

partial_function (option) js_for :: "number \<Rightarrow> nat \<Rightarrow> (nat \<Rightarrow> 's \<Rightarrow> 's) \<Rightarrow> 's \<Rightarrow> 's option" where
  "js_for n i body s = (if js_less i n then js_for n (Suc i) body (body i s) else Some s)"

declare js_for.simps [code]

text \<open>
  \<^verbatim>\<open>buffer.copyFromChannel(data, channel, offset)\<close> into a fresh array of \<open>len\<close>
  zeros: the frames from \<open>offset\<close> on, as many as there are and fit; the rest of the
  array stays zero.
\<close>

definition copyFromChannel :: "'a::zero list \<Rightarrow> nat \<Rightarrow> nat \<Rightarrow> 'a list" where
  "copyFromChannel chan len offset =
     take len (drop offset chan) @ replicate (len - length (take len (drop offset chan))) 0"

text \<open>
  The body of the loop of \<^verbatim>\<open>createAudioSegments\<close> (processor) for the index \<open>i\<close>. The
  segment length may be a fraction (the cap is a quotient); the typed array constructor
  truncates it. It is never negative where the loop runs, as \<open>end \<ge> start\<close> there.
\<close>

definition segment_at :: "'a::zero AudioBuffer \<Rightarrow> real \<Rightarrow> nat \<Rightarrow> 'a AudioSegment" where
  "segment_at audioBuffer segmentDuration i =
     (let maxSamplesPerSegment =
            min (of_int \<lfloor>segmentDuration * sampleRate audioBuffer\<rfloor>)
                (MAX_SEGMENT_SIZE / real (numberOfChannels audioBuffer));
          start = real i * segmentDuration;
          end = min ((real i + 1) * segmentDuration) (duration audioBuffer);
          segmentLength =
            min (of_int \<lfloor>(end - start) * sampleRate audioBuffer\<rfloor>) maxSamplesPerSegment
      in \<lparr>start = start, endTime = end,
          data = map (\<lambda>chan. copyFromChannel chan (nat \<lfloor>segmentLength\<rfloor>)
                                 (nat \<lfloor>start * sampleRate audioBuffer\<rfloor>))
                   (channelData audioBuffer)\<rparr>)"

text \<open>
  \<^verbatim>\<open>createAudioSegments\<close> of the processor. The pause the source takes every
  hundred segments does not change what is returned.
\<close>

definition createAudioSegments ::
  "'a::zero AudioBuffer \<Rightarrow> real \<Rightarrow> 'a AudioSegment list option" where
  "createAudioSegments audioBuffer segmentDuration =
     (let numberOfSegments = js_ceil (js_div (duration audioBuffer) segmentDuration)
      in js_for numberOfSegments 0
           (\<lambda>i segments. segments @ [segment_at audioBuffer segmentDuration i]) [])"


text \<open>\<^verbatim>\<open>reorderSegments\<close> of the editor, and the reversal that follows it there.\<close>

definition reorderSegments :: "EncodingType \<Rightarrow> 'a list \<Rightarrow> 'a list" where
  "reorderSegments etype segments =
     (if etype = split then
        filter_index (\<lambda>i. i mod 2 = 0) segments @ filter_index (\<lambda>i. i mod 2 = 1) segments
      else if etype = oddEven then
        filter_index (\<lambda>i. i mod 2 = 0) segments @ filter_index (\<lambda>i. i mod 2 = 1) segments
      else segments)"

definition editor_order :: "EncodingType \<Rightarrow> bool \<Rightarrow> 'a list \<Rightarrow> 'a list" where
  "editor_order etype reversed segments =
     (let reorderedSegments = reorderSegments etype segments
      in if reversed then rev reorderedSegments else reorderedSegments)"

subsection \<open>Assembling a buffer\<close>

datatype js_error = TypeError | RangeError | NotSupportedError

text \<open>
  The first line of \<^verbatim>\<open>processInBatches\<close>: the sum of \<^verbatim>\<open>segment.data[0].length\<close>.
  A segment with no channel at all has no \<^verbatim>\<open>data[0]\<close>, and reading its length throws.
\<close>

definition totalLength :: "'a AudioSegment list \<Rightarrow> js_error + nat" where
  "totalLength segments =
     foldl (\<lambda>acc segment.
              case acc of
                Inl e \<Rightarrow> Inl e
              | Inr n \<Rightarrow>
                  (case data segment of [] \<Rightarrow> Inl TypeError | c # cs \<Rightarrow> Inr (n + length c)))
       (Inr 0) segments"

text \<open>\<^verbatim>\<open>target.set(source, offset)\<close> on typed arrays.\<close>

definition typed_set :: "'a list \<Rightarrow> 'a list \<Rightarrow> nat \<Rightarrow> js_error + 'a list" where
  "typed_set target source offset =
     (if length target < offset + length source then Inl RangeError
      else Inr (take offset target @ source @ drop (offset + length source) target))"

text \<open>One segment of the inner loop: every channel is written, then the position moves on.\<close>

definition write_segment ::
  "nat \<Rightarrow> 'a AudioSegment \<Rightarrow> 'a list list \<times> nat \<Rightarrow> js_error + 'a list list \<times> nat" where
  "write_segment nch segment st =
     (case foldl (\<lambda>acc channel.
                    case acc of
                      Inl e \<Rightarrow> Inl e
                    | Inr chans \<Rightarrow>
                        if length (data segment) \<le> channel then Inl TypeError
                        else (case typed_set (chans ! channel) (data segment ! channel) (snd st) of
                                Inl e \<Rightarrow> Inl e
                              | Inr c \<Rightarrow> Inr (chans[channel := c])))
             (Inr (fst st)) [0..<nch] of
        Inl e \<Rightarrow> Inl e
      | Inr chans \<Rightarrow>
          (case data segment of
             [] \<Rightarrow> Inl TypeError
           | c # cs \<Rightarrow> Inr (chans, snd st + length c)))"

text \<open>The batches \<^verbatim>\<open>segments.slice(i, i + batchSize)\<close> for \<open>i = 0, batchSize, ...\<close>\<close>

definition batches :: "nat \<Rightarrow> 'a list \<Rightarrow> 'a list list" where
  "batches batchSize xs =
     map (\<lambda>j. js_slice xs (j * batchSize) (j * batchSize + batchSize))
       [0..<ceil_div (length xs) batchSize]"

text \<open>
  \<^verbatim>\<open>processInBatches\<close>, with the default batch size. \<^verbatim>\<open>createBuffer\<close> refuses a
  buffer of no channel or of no frame; the sample rate is that of a decoded buffer. The
  source empties \<^verbatim>\<open>segment.data\<close> once a segment is written; the total length is
  taken before, and a segment object occurs once in the list the encoder or the decoder
  passes, so the result does not depend on it.
\<close>

definition processInBatches ::
  "'a::zero AudioSegment list \<Rightarrow> nat \<Rightarrow> real \<Rightarrow> js_error + 'a AudioBuffer" where
  "processInBatches segments nch rate =
     (case totalLength segments of
        Inl e \<Rightarrow> Inl e
      | Inr len \<Rightarrow>
          if nch = 0 \<or> len = 0 then Inl NotSupportedError
          else
            (case foldl (\<lambda>acc segment.
                           case acc of Inl e \<Rightarrow> Inl e | Inr st \<Rightarrow> write_segment nch segment st)
                    (Inr (replicate nch (replicate len 0), 0))
                    (concat (batches 50 segments)) of
               Inl e \<Rightarrow> Inl e
             | Inr st \<Rightarrow> Inr \<lparr>sampleRate = rate, frames = len, channelData = fst st\<rparr>))"

text \<open>\<^verbatim>\<open>reverseAudioBuffer\<close>: sample \<open>i\<close> of every channel becomes sample \<open>length - 1 - i\<close>.\<close>

definition reverseAudioBuffer :: "'a AudioBuffer \<Rightarrow> 'a AudioBuffer" where
  "reverseAudioBuffer buffer =
     \<lparr>sampleRate = sampleRate buffer, frames = frames buffer,
      channelData =
        map (\<lambda>channelData. map (\<lambda>i. channelData ! (length channelData - 1 - i))
                               [0..<length channelData])
          (channelData buffer)\<rparr>"

text \<open>
  \<^verbatim>\<open>encodeAudio\<close> and \<^verbatim>\<open>decodeAudio\<close> from the decoded buffer to the buffer that is
  written out: \<open>None\<close> when the segmentation does not return, \<open>Inl\<close> when a step throws.
\<close>

definition encodeAudio :: "EncodeState \<Rightarrow> 'a::zero AudioBuffer \<Rightarrow> (js_error + 'a AudioBuffer) option" where
  "encodeAudio st audioBuffer =
     (case createAudioSegments audioBuffer (interval st) of
        None \<Rightarrow> None
      | Some segments \<Rightarrow>
          Some (case processInBatches
                       (encode_reorder (encodingType st) (numberOfParts st) segments)
                       (numberOfChannels audioBuffer) (sampleRate audioBuffer) of
                  Inl e \<Rightarrow> Inl e
                | Inr encodedBuffer \<Rightarrow>
                    Inr (if isReversed st then reverseAudioBuffer encodedBuffer
                         else encodedBuffer)))"

definition decodeAudio :: "DecodeState \<Rightarrow> 'a::zero AudioBuffer \<Rightarrow> (js_error + 'a AudioBuffer) option" where
  "decodeAudio st audioBuffer =
     (let workingBuffer =
            (if isDecodeReversed st then reverseAudioBuffer audioBuffer else audioBuffer)
      in case createAudioSegments workingBuffer (decodeInterval st) of
           None \<Rightarrow> None
         | Some segments \<Rightarrow>
             Some (processInBatches
                     (decode_reorder (decodingType st) (decodeNumberOfParts st) segments)
                     (numberOfChannels workingBuffer) (sampleRate workingBuffer)))"

subsection \<open>The segmenter of the spec\<close>


subsection \<open>Well-formed segments and the assembled channels\<close>

text \<open>
  A segment cut from a buffer of \<open>nch\<close> channels has \<open>nch\<close> channels of one common
  length, its length. The channels a sequence of such segments assembles to are their
  concatenations, channel by channel. \<open>reverse_samples\<close> is a segment with the
  samples of each of its channels in reverse.
\<close>

definition segment_ok :: "nat \<Rightarrow> 'a AudioSegment \<Rightarrow> bool" where
  "segment_ok nch segment =
     (length (data segment) = nch \<and>
      list_all (\<lambda>c. length c = length (hd (data segment))) (data segment))"

definition segment_length :: "'a AudioSegment \<Rightarrow> nat" where
  "segment_length segment = length (hd (data segment))"

definition assemble :: "nat \<Rightarrow> 'a AudioSegment list \<Rightarrow> 'a list list" where
  "assemble nch segments = map (\<lambda>c. concat (map (\<lambda>s. data s ! c) segments)) [0..<nch]"

definition reverse_samples :: "'a AudioSegment \<Rightarrow> 'a AudioSegment" where
  "reverse_samples segment = segment\<lparr>data := map rev (data segment)\<rparr>"

text \<open>
  The state of the writing loop of \<^verbatim>\<open>processInBatches\<close> after the segments \<open>P\<close>, in
  a buffer of \<open>T\<close> frames: what has been written, zeros behind it, and the write position.
\<close>

definition state_after :: "nat \<Rightarrow> nat \<Rightarrow> 'a::zero AudioSegment list \<Rightarrow> 'a list list \<times> nat" where
  "state_after T nch P =
     (map (\<lambda>c. concat (map (\<lambda>s. data s ! c) P)
               @ replicate (T - sum_list (map segment_length P)) 0) [0..<nch],
      sum_list (map segment_length P))"

subsection \<open>Example inputs\<close>

text \<open>Two mono segments of two samples each, a quarter of a millisecond at 8 kHz.\<close>

definition two_segments :: "int AudioSegment list" where
  "two_segments =
     [\<lparr>start = 0, endTime = 1 / 4000, data = [[1, 2]]\<rparr>,
      \<lparr>start = 1 / 4000, endTime = 1 / 2000, data = [[3, 4]]\<rparr>]"

text \<open>
  A millisecond of mono audio at 8 kHz, its eight samples numbered; with an interval of a
  quarter of a millisecond it is cut into four segments of two samples.
\<close>

definition one_ms :: "int AudioBuffer" where
  "one_ms = \<lparr>sampleRate = 8000, frames = 8, channelData = [[1, 2, 3, 4, 5, 6, 7, 8]]\<rparr>"



section \<open>Properties of the descriptor codec\<close>

lemmas parse_eval_defs =
  parseEncodingCode_def parse_checks_def parseFloat_def parseInt_def interval_check_def
  parts_check_def is_digit_def is_hex_digit_def is_space_def digits_value_def hex_value_def
  digit_val_def hex_val_def exponent_part_def scale10_def initial_decode_state_def

text \<open>
  C8 as the spec states it: the string \<^verbatim>\<open>oebb0.2bt\<close> is the well-formed OddEven code and
  parses. In the source it does not: it splits on \<^verbatim>\<open>b\<close> into the four fields
  \<^verbatim>\<open>oe\<close>, the empty string, \<^verbatim>\<open>0.2\<close> and \<^verbatim>\<open>t\<close>, and the parser returns false
  on any field count other than three, leaving the decoder's state as it was.
\<close>

theorem oddEven_code_with_flag_separator_rejected:
  "split_on CHR ''b'' ''oebb0.2bt'' = [''oe'', [], ''0.2'', ''t''] \<and>
   parseEncodingCode ''oebb0.2bt'' initial_decode_state = (False, initial_decode_state)"
  by (simp add: parse_eval_defs)

text \<open>
  C8, amended: the OddEven code of interval 0.2, reversed, is \<^verbatim>\<open>oebb0.2t\<close>, with no
  separator before the flag. The generator emits it, and the parser accepts it and sets
  the decoder to OddEven, interval 0.2, reversed; the number of parts stays as it was.
\<close>

theorem oddEven_code_parses:
  "generateEncodingCode
     \<lparr>encodingType = oddEven, numberOfParts = k, interval = 2 / 10, isReversed = True\<rparr>
     = Some ''oebb0.2t'' \<and>
   parseEncodingCode ''oebb0.2t'' st =
     (True, st\<lparr>decodingType := oddEven, decodeInterval := 2 / 10, isDecodeReversed := True\<rparr>)"
proof
  have "frac_digits 25 (2 / 10) = Some ''2''"
    by code_simp
  then show "generateEncodingCode
     \<lparr>encodingType = oddEven, numberOfParts = k, interval = 2 / 10, isReversed = True\<rparr>
     = Some ''oebb0.2t''"
    by (simp add: generateEncodingCode_def number_to_string_def nat_to_string.simps
        digit_char_def)
  show "parseEncodingCode ''oebb0.2t'' st =
     (True, st\<lparr>decodingType := oddEven, decodeInterval := 2 / 10, isDecodeReversed := True\<rparr>)"
    by (simp add: parse_eval_defs)
qed

text \<open>
  C9 as the spec states it: \<^verbatim>\<open>sb1b0.2bt\<close> is rejected for its parts, \<^verbatim>\<open>sb5b0.2bx\<close>
  for its reverse flag and \<^verbatim>\<open>xb5b0.2bt\<close> for its type. In the source each of the three
  has four fields and is rejected by the first check, the field count, before its parts,
  flag or type is looked at.
\<close>

theorem rejection_examples_fail_field_count:
  "parse_checks ''sb1b0.2bt'' = Inl MalformedCode \<and>
   parse_checks ''sb5b0.2bx'' = Inl MalformedCode \<and>
   parse_checks ''xb5b0.2bt'' = Inl MalformedCode"
  by (simp add: parse_eval_defs)

text \<open>
  C9, amended: the parser rejects each of the three strings and leaves the decoder's
  state as it was, each by the field count. The same parameters in the three-field form
  the parser reads are rejected by the check the spec names: \<^verbatim>\<open>sb1b0.2t\<close> by the range
  of the parts, \<^verbatim>\<open>sb5b0.2x\<close> by the reverse flag, \<^verbatim>\<open>xb5b0.2t\<close> by the type.
\<close>

theorem rejection_examples:
  "parseEncodingCode ''sb1b0.2bt'' st = (False, st) \<and>
   parseEncodingCode ''sb5b0.2bx'' st = (False, st) \<and>
   parseEncodingCode ''xb5b0.2bt'' st = (False, st) \<and>
   parse_checks ''sb1b0.2bt'' = Inl MalformedCode \<and>
   parse_checks ''sb5b0.2bx'' = Inl MalformedCode \<and>
   parse_checks ''xb5b0.2bt'' = Inl MalformedCode \<and>
   parse_checks ''sb1b0.2t'' = Inl PartsOutOfRange \<and>
   parse_checks ''sb5b0.2x'' = Inl InvalidReverseFlag \<and>
   parse_checks ''xb5b0.2t'' = Inl UnknownType"
  by (simp add: parse_eval_defs)

text \<open>
  C10: the parser accepts a string outside the grammar. The parts field of
  \<^verbatim>\<open>sb5xb0.2t\<close> is \<^verbatim>\<open>5x\<close>, which is not a string of decimal digits; \<^verbatim>\<open>parseInt\<close>
  reads its prefix \<^verbatim>\<open>5\<close> and ignores the rest, and the parser sets the decoder to
  Split with 5 parts, interval 0.2, reversed.
\<close>

theorem parse_accepts_trailing_garbage:
  "split_on CHR ''b'' ''sb5xb0.2t'' = [''s'', ''5x'', ''0.2t''] \<and>
   \<not> list_all is_digit ''5x'' \<and>
   parseInt ''5x'' = Some 5 \<and>
   parseEncodingCode ''sb5xb0.2t'' st =
     (True, st\<lparr>decodingType := split, decodeNumberOfParts := 5, decodeInterval := 2 / 10,
               isDecodeReversed := True\<rparr>)"
  by (simp add: parse_eval_defs)

section \<open>Properties of the permutation engine\<close>

subsection \<open>Index filters and the store loop\<close>

lemma filter_index_Nil: "filter_index p [] = []"
  by (simp add: filter_index_def)

lemma filter_index_Cons:
  "filter_index p (x # xs) = (if p 0 then [x] else []) @ filter_index (\<lambda>i. p (Suc i)) xs"
proof -
  have "[0..<Suc (length xs)] = 0 # map Suc [0..<length xs]"
    by (simp add: upt_conv_Cons map_Suc_upt del: upt_Suc)
  then show ?thesis
    by (simp add: filter_index_def zip_map2 filter_map comp_def case_prod_unfold del: upt_Suc)
qed

lemma filter_index_parity:
  "length (filter_index (\<lambda>i. i mod 2 = 0) xs) = (length xs + 1) div 2 \<and>
   length (filter_index (\<lambda>i. i mod 2 = Suc 0) xs) = length xs div 2 \<and>
   (\<forall>i < (length xs + 1) div 2. filter_index (\<lambda>i. i mod 2 = 0) xs ! i = xs ! (2 * i)) \<and>
   (\<forall>i < length xs div 2. filter_index (\<lambda>i. i mod 2 = Suc 0) xs ! i = xs ! (2 * i + 1))"
proof (induction xs)
  case Nil
  show ?case by (simp add: filter_index_Nil)
next
  case (Cons x xs)
  have e: "filter_index (\<lambda>i. i mod 2 = 0) (x # xs) = x # filter_index (\<lambda>i. i mod 2 = Suc 0) xs"
    by (simp add: filter_index_Cons mod_Suc)
  have o: "filter_index (\<lambda>i. i mod 2 = Suc 0) (x # xs) = filter_index (\<lambda>i. i mod 2 = 0) xs"
    by (simp add: filter_index_Cons mod_Suc)
  show ?case
    using Cons.IH by (auto simp: e o nth_Cons split: nat.splits)
qed

lemma length_js_store: "i < length arr \<Longrightarrow> length (js_store arr i v) = length arr"
  by (simp add: js_store_def)

lemma forEach_store_snoc:
  "forEach_store g f (ys @ [y]) arr =
     (if g (length ys) then js_store (forEach_store g f ys arr) (f (length ys)) y
      else forEach_store g f ys arr)"
  by (simp add: forEach_store_def enumerate_append_eq)

lemma forEach_store_Nil: "forEach_store g f [] arr = arr"
  by (simp add: forEach_store_def)

lemma forEach_store_length:
  "(\<And>i. i < length ys \<Longrightarrow> g i \<Longrightarrow> f i < length arr) \<Longrightarrow>
   length (forEach_store g f ys arr) = length arr"
proof (induction ys rule: rev_induct)
  case Nil
  show ?case by (simp add: forEach_store_Nil)
next
  case (snoc y ys)
  have "length (forEach_store g f ys arr) = length arr"
    using snoc.prems by (intro snoc.IH) simp_all
  moreover have "g (length ys) \<Longrightarrow> f (length ys) < length arr"
    using snoc.prems[of "length ys"] by simp
  ultimately show ?case
    by (simp add: forEach_store_snoc length_js_store)
qed

lemma forEach_store_hit:
  assumes bound: "\<And>i. i < length ys \<Longrightarrow> g i \<Longrightarrow> f i < length arr"
    and inj: "\<And>i j. i < length ys \<Longrightarrow> j < length ys \<Longrightarrow> g i \<Longrightarrow> g j \<Longrightarrow> f i = f j \<Longrightarrow> i = j"
    and i: "i < length ys" "g i"
  shows "forEach_store g f ys arr ! f i = Some (ys ! i)"
  using assms
proof (induction ys rule: rev_induct)
  case Nil
  then show ?case by simp
next
  case (snoc y ys)
  have len: "length (forEach_store g f ys arr) = length arr"
    using snoc.prems(1) by (intro forEach_store_length) simp_all
  show ?case
  proof (cases "i = length ys")
    case True
    then have "f i < length arr" using snoc.prems(1)[of i] snoc.prems(3,4) by simp
    with True snoc.prems(4) len show ?thesis
      by (simp add: forEach_store_snoc js_store_def)
  next
    case False
    then have il: "i < length ys" using snoc.prems(3) by simp
    have ih: "forEach_store g f ys arr ! f i = Some (ys ! i)"
    proof (rule snoc.IH)
      show "\<And>i. i < length ys \<Longrightarrow> g i \<Longrightarrow> f i < length arr"
        using snoc.prems(1) by simp
      show "\<And>i j. i < length ys \<Longrightarrow> j < length ys \<Longrightarrow> g i \<Longrightarrow> g j \<Longrightarrow> f i = f j \<Longrightarrow> i = j"
        using snoc.prems(2) by simp
      show "i < length ys" by (rule il)
      show "g i" by (rule snoc.prems(4))
    qed
    show ?thesis
    proof (cases "g (length ys)")
      case True
      have ne: "f (length ys) \<noteq> f i"
        using snoc.prems(2)[of "length ys" i] il True snoc.prems(4) by auto
      have "f (length ys) < length arr" using snoc.prems(1)[of "length ys"] True by simp
      with ne ih il len True show ?thesis
        by (simp add: forEach_store_snoc js_store_def nth_append)
    next
      case False
      with ih il show ?thesis by (simp add: forEach_store_snoc nth_append)
    qed
  qed
qed

lemma forEach_store_miss:
  assumes bound: "\<And>i. i < length ys \<Longrightarrow> g i \<Longrightarrow> f i < length arr"
    and miss: "\<And>i. i < length ys \<Longrightarrow> g i \<Longrightarrow> f i \<noteq> j"
  shows "forEach_store g f ys arr ! j = arr ! j"
  using assms
proof (induction ys rule: rev_induct)
  case Nil
  show ?case by (simp add: forEach_store_Nil)
next
  case (snoc y ys)
  have len: "length (forEach_store g f ys arr) = length arr"
    using snoc.prems(1) by (intro forEach_store_length) simp_all
  have ih: "forEach_store g f ys arr ! j = arr ! j"
    using snoc.prems by (intro snoc.IH) simp_all
  show ?case
  proof (cases "g (length ys)")
    case True
    have "f (length ys) \<noteq> j" using snoc.prems(2)[of "length ys"] True by simp
    moreover have "f (length ys) < length arr" using snoc.prems(1)[of "length ys"] True by simp
    ultimately show ?thesis using ih len True
      by (simp add: forEach_store_snoc js_store_def)
  next
    case False
    with ih show ?thesis by (simp add: forEach_store_snoc)
  qed
qed

lemma compact_map_Some: "compact (map Some xs) = xs"
  by (induction xs) (simp_all add: compact_def)


lemma ceil_div_2: "ceil_div n 2 = (n + 1) div 2"
  by (simp add: ceil_div_def)

subsection \<open>OddEven\<close>

text \<open>
  C3: for every list of segments, the OddEven branch of the decoder undoes the OddEven
  branch of the encoder. The encoder puts the elements of even index first and those of
  odd index after them; the decoder writes the first \<open>\<lceil>n/2\<rceil>\<close> elements to the slots
  0, 2, 4, ... and the others to the slots 1, 3, 5, ... of an array of \<open>n\<close> holes, which
  leaves no hole. The list may have even or odd length, or be empty.
\<close>

theorem oddEven_round_trip: "decode_oddEven (encode_oddEven xs) = xs"
proof -
  define n where "n = length xs"
  define Ev where "Ev = filter_index (\<lambda>i. i mod 2 = 0) xs"
  define Od where "Od = filter_index (\<lambda>i. i mod 2 = Suc 0) xs"
  have lenEv: "length Ev = (n + 1) div 2" and lenOd: "length Od = n div 2"
    and nthEv: "\<And>i. i < (n + 1) div 2 \<Longrightarrow> Ev ! i = xs ! (2 * i)"
    and nthOd: "\<And>i. i < n div 2 \<Longrightarrow> Od ! i = xs ! (2 * i + 1)"
    using filter_index_parity[of xs] by (simp_all add: n_def Ev_def Od_def)
  have enc: "encode_oddEven xs = Ev @ Od"
    by (simp add: encode_oddEven_def Ev_def Od_def)
  have total: "length (Ev @ Od) = n"
    using lenEv lenOd by simp
  define A1 where "A1 = forEach_store (\<lambda>index. True) (\<lambda>index. index * 2) Ev (replicate n None)"
  define A2 where
    "A2 = forEach_store (\<lambda>index. index * 2 + 1 < n) (\<lambda>index. index * 2 + 1) Od A1"
  have dec: "decode_oddEven (Ev @ Od) = compact A2"
    unfolding decode_oddEven_def Let_def total ceil_div_2 js_slice_def A2_def A1_def
    using lenEv by simp
  have b1: "\<And>i. i < length Ev \<Longrightarrow> i * 2 < length (replicate n (None :: 'a option))"
    using lenEv by simp
  have lenA1: "length A1 = n"
    unfolding A1_def using b1 by (subst forEach_store_length) simp_all
  have b2: "\<And>i. i < length Od \<Longrightarrow> i * 2 + 1 < n \<Longrightarrow> i * 2 + 1 < length A1"
    using lenA1 by simp
  have lenA2: "length A2 = n"
    unfolding A2_def using b2 lenA1 by (subst forEach_store_length) simp_all
  have nthA2: "A2 ! j = Some (xs ! j)" if j: "j < n" for j
  proof (cases "even j")
    case True
    then obtain i where i: "j = i * 2" by (auto elim: evenE)
    with j have il: "i < length Ev" using lenEv by simp
    have "A2 ! j = A1 ! j"
      unfolding A2_def
    proof (rule forEach_store_miss)
      fix k assume "k < length Od" "k * 2 + 1 < n"
      then show "k * 2 + 1 < length A1" by (rule b2)
      show "k * 2 + 1 \<noteq> j" using i by presburger
    qed
    moreover have "A1 ! (i * 2) = Some (Ev ! i)"
      unfolding A1_def using b1 il by (intro forEach_store_hit) simp_all
    ultimately show ?thesis using nthEv[of i] il lenEv i by (simp add: mult.commute)
  next
    case False
    then obtain i where i: "j = i * 2 + 1" by (auto elim: oddE)
    with j have il: "i < length Od" using lenOd by simp
    have "A2 ! (i * 2 + 1) = Some (Od ! i)"
      unfolding A2_def using b2 il j i by (intro forEach_store_hit) simp_all
    then show ?thesis using nthOd[of i] il lenOd i by (simp add: mult.commute)
  qed
  have "A2 = map Some xs"
    using lenA2 nthA2 by (intro nth_equalityI) (simp_all add: n_def)
  then show ?thesis
    using enc dec by (simp add: compact_map_Some)
qed

subsection \<open>Split\<close>

text \<open>
  C1: the Split branch of the decoder does not undo the Split branch of the encoder on
  every input. Four segments in three parts are cut into the slices \<open>[0, 1]\<close>, \<open>[2, 3]\<close>
  and \<open>[]\<close>; the interleaving skips the empty slice and gives \<open>[0, 2, 1, 3]\<close>. The
  decoder assumes that every round took one element of each of the three slices: it
  sends position 2 (segment 1) to slot \<open>2 * 2 + 0 = 4\<close>, which is out of range and dropped,
  and position 3 (segment 3) to slot \<open>0 * 2 + 1 = 1\<close>. Segment 1 is lost and the order is
  \<open>[0, 3, 2]\<close>. Through the whole of \<^verbatim>\<open>encodeAudio\<close> and \<^verbatim>\<open>decodeAudio\<close>: the samples
  1 to 8, in four segments of two, are encoded as \<open>[1, 2, 5, 6, 3, 4, 7, 8]\<close> and decoded
  as \<open>[1, 2, 7, 8, 5, 6]\<close>.
\<close>

theorem split_round_trip_fails:
  "encode_split 3 [0, 1, 2, 3 :: nat] = [0, 2, 1, 3] \<and>
   decode_split 3 (encode_split 3 [0, 1, 2, 3 :: nat]) = [0, 3, 2] \<and>
   encodeAudio
     \<lparr>encodingType = split, numberOfParts = 3, interval = 1 / 4000, isReversed = False\<rparr>
     one_ms
   = Some (Inr \<lparr>sampleRate = 8000, frames = 8,
                  channelData = [[1, 2, 5, 6, 3, 4, 7, 8]]\<rparr>) \<and>
   decodeAudio
     \<lparr>decodingType = split, decodeNumberOfParts = 3, decodeInterval = 1 / 4000,
      isDecodeReversed = False\<rparr>
     \<lparr>sampleRate = 8000, frames = 8, channelData = [[1, 2, 5, 6, 3, 4, 7, 8 :: int]]\<rparr>
   = Some (Inr \<lparr>sampleRate = 8000, frames = 6, channelData = [[1, 2, 7, 8, 5, 6]]\<rparr>)"
  by code_simp

section \<open>Properties of the segmenter\<close>

subsection \<open>The counting loop\<close>
















subsection \<open>Validation\<close>







section \<open>Properties of the buffer assembler\<close>

subsection \<open>What \<^verbatim>\<open>processInBatches\<close> builds\<close>

lemma ceil_div_mult_ge: "0 < b \<Longrightarrow> n \<le> ceil_div n b * b"
proof -
  assume b: "0 < b"
  have "n + b - 1 = (n + b - 1) div b * b + (n + b - 1) mod b" by simp
  moreover have "(n + b - 1) mod b < b" using b by simp
  ultimately show ?thesis unfolding ceil_div_def by linarith
qed

lemma concat_slices: "concat (map (\<lambda>j. take b (drop (j * b) xs)) [0..<m]) = take (m * b) xs"
proof (induction m)
  case 0
  show ?case by simp
next
  case (Suc m)
  have "take (Suc m * b) xs = take (m * b + b) xs"
    by (simp add: add.commute)
  also have "\<dots> = take (m * b) xs @ take b (drop (m * b) xs)"
    by (rule take_add)
  finally show ?case using Suc by simp
qed

lemma concat_batches: "0 < b \<Longrightarrow> concat (batches b xs) = xs"
  by (simp add: batches_def js_slice_def concat_slices ceil_div_mult_ge)

lemma foldl_Inl:
  "foldl (\<lambda>acc x. case acc of Inl e \<Rightarrow> Inl e | Inr s \<Rightarrow> f x s) (Inl e) xs = Inl e"
  by (induction xs) simp_all

lemma segment_ok_data: "segment_ok nch s \<Longrightarrow> 0 < nch \<Longrightarrow> data s \<noteq> []"
  by (auto simp: segment_ok_def)

lemma segment_ok_channel:
  "segment_ok nch s \<Longrightarrow> c < nch \<Longrightarrow> length (data s ! c) = segment_length s"
  by (auto simp: segment_ok_def segment_length_def list_all_length)

lemma totalLength_from:
  assumes "\<And>s. s \<in> set segs \<Longrightarrow> data s \<noteq> []"
  shows "foldl (\<lambda>acc segment.
              case acc of
                Inl e \<Rightarrow> Inl e
              | Inr n \<Rightarrow>
                  (case data segment of [] \<Rightarrow> Inl TypeError | c # cs \<Rightarrow> Inr (n + length c)))
       (Inr n0) segs = Inr (n0 + sum_list (map segment_length segs))"
  using assms
proof (induction segs arbitrary: n0)
  case Nil
  show ?case by simp
next
  case (Cons s segs)
  then obtain c cs where d: "data s = c # cs"
    by (cases "data s") auto
  show ?case
    using Cons.IH[of "n0 + length c"] Cons.prems by (simp add: d segment_length_def)
qed

lemma totalLength_ok:
  "(\<And>s. s \<in> set segs \<Longrightarrow> segment_ok nch s) \<Longrightarrow> 0 < nch \<Longrightarrow>
   totalLength segs = Inr (sum_list (map segment_length segs))"
  unfolding totalLength_def
  using totalLength_from[of segs 0] segment_ok_data by fastforce


lemma write_channels:
  assumes d: "length (data seg) = nch" and l: "length chans = nch"
    and fit: "\<And>c. c < nch \<Longrightarrow> wp + length (data seg ! c) \<le> length (chans ! c)"
    and j: "j \<le> nch"
  shows "foldl (\<lambda>acc channel.
                    case acc of
                      Inl e \<Rightarrow> Inl e
                    | Inr chans \<Rightarrow>
                        if length (data seg) \<le> channel then Inl TypeError
                        else (case typed_set (chans ! channel) (data seg ! channel) wp of
                                Inl e \<Rightarrow> Inl e
                              | Inr c \<Rightarrow> Inr (chans[channel := c])))
             (Inr chans) [0..<j] =
         Inr (map (\<lambda>c. if c < j
                        then take wp (chans ! c) @ data seg ! c
                             @ drop (wp + length (data seg ! c)) (chans ! c)
                        else chans ! c) [0..<nch])"
  using j
proof (induction j)
  case 0
  show ?case using map_nth[of chans] by (simp add: l)
next
  case (Suc j)
  then have jn: "j < nch" by simp
  let ?new = "\<lambda>c. take wp (chans ! c) @ data seg ! c
                   @ drop (wp + length (data seg ! c)) (chans ! c)"
  let ?M = "\<lambda>j. map (\<lambda>c. if c < j then ?new c else chans ! c) [0..<nch]"
  have ts: "typed_set (chans ! j) (data seg ! j) wp = Inr (?new j)"
    using fit[OF jn] by (simp add: typed_set_def)
  have upd: "(?M j)[j := ?new j] = ?M (Suc j)"
    using jn by (intro nth_equalityI) (auto simp: nth_list_update less_Suc_eq)
  show ?case
    using Suc.IH jn d ts upd by simp
qed

lemma length_concat_channel:
  assumes "\<And>s. s \<in> set P \<Longrightarrow> segment_ok nch s" and "c < nch"
  shows "length (concat (map (\<lambda>s. data s ! c) P)) = sum_list (map segment_length P)"
  using assms
proof (induction P)
  case Nil
  show ?case by simp
next
  case (Cons a P)
  have "length (data a ! c) = segment_length a"
    using Cons.prems by (intro segment_ok_channel) simp_all
  moreover have "length (concat (map (\<lambda>s. data s ! c) P)) = sum_list (map segment_length P)"
    using Cons.prems by (intro Cons.IH) simp_all
  ultimately show ?case by simp
qed

lemma write_segment_ok:
  assumes P: "\<And>s. s \<in> set P \<Longrightarrow> segment_ok nch s" and seg: "segment_ok nch seg"
    and nch: "0 < nch" and T: "sum_list (map segment_length P) + segment_length seg \<le> T"
  shows "write_segment nch seg (state_after T nch P) = Inr (state_after T nch (P @ [seg]))"
proof -
  define wp where "wp = sum_list (map segment_length P)"
  define chans where "chans = fst (state_after T nch P)"
  have d: "length (data seg) = nch" using seg by (simp add: segment_ok_def)
  have l: "length chans = nch" by (simp add: chans_def state_after_def)
  have ch: "chans ! c = concat (map (\<lambda>s. data s ! c) P) @ replicate (T - wp) 0"
    if "c < nch" for c
    using that by (simp add: chans_def state_after_def wp_def)
  have lc: "length (concat (map (\<lambda>s. data s ! c) P)) = wp" if "c < nch" for c
    unfolding wp_def using P that by (rule length_concat_channel)
  have sl: "length (data seg ! c) = segment_length seg" if "c < nch" for c
    using seg that by (rule segment_ok_channel)
  have fit: "wp + length (data seg ! c) \<le> length (chans ! c)" if "c < nch" for c
    using that T by (simp add: ch lc sl wp_def)
  have new: "take wp (chans ! c) @ data seg ! c @ drop (wp + length (data seg ! c)) (chans ! c)
      = concat (map (\<lambda>s. data s ! c) (P @ [seg]))
        @ replicate (T - (wp + segment_length seg)) 0" if "c < nch" for c
    using that by (simp add: ch lc sl)
  have fold: "foldl (\<lambda>acc channel.
                    case acc of
                      Inl e \<Rightarrow> Inl e
                    | Inr chans \<Rightarrow>
                        if length (data seg) \<le> channel then Inl TypeError
                        else (case typed_set (chans ! channel) (data seg ! channel) wp of
                                Inl e \<Rightarrow> Inl e
                              | Inr c \<Rightarrow> Inr (chans[channel := c])))
             (Inr chans) [0..<nch] = Inr (fst (state_after T nch (P @ [seg])))"
    using write_channels[OF d l fit, of nch] new
    by (simp add: state_after_def wp_def cong: map_cong)
  obtain c cs where dc: "data seg = c # cs"
    using d nch by (cases "data seg") auto
  have st: "state_after T nch P = (chans, wp)"
    by (simp add: chans_def wp_def state_after_def)
  show ?thesis
    unfolding write_segment_def st fst_conv snd_conv fold
    by (simp add: dc state_after_def wp_def segment_length_def)
qed

lemma write_all:
  assumes "\<And>s. s \<in> set (P @ R) \<Longrightarrow> segment_ok nch s" and "0 < nch"
    and "sum_list (map segment_length (P @ R)) \<le> T"
  shows "foldl (\<lambda>acc segment.
                  case acc of Inl e \<Rightarrow> Inl e | Inr st \<Rightarrow> write_segment nch segment st)
           (Inr (state_after T nch P)) R = Inr (state_after T nch (P @ R))"
  using assms
proof (induction R arbitrary: P)
  case Nil
  show ?case by simp
next
  case (Cons seg R)
  have w: "write_segment nch seg (state_after T nch P) = Inr (state_after T nch (P @ [seg]))"
    using Cons.prems by (intro write_segment_ok) simp_all
  have "foldl (\<lambda>acc segment.
                  case acc of Inl e \<Rightarrow> Inl e | Inr st \<Rightarrow> write_segment nch segment st)
           (Inr (state_after T nch (P @ [seg]))) R = Inr (state_after T nch ((P @ [seg]) @ R))"
    using Cons.prems by (intro Cons.IH) simp_all
  then show ?case by (simp add: w)
qed

lemma processInBatches_ok:
  assumes ok: "\<And>s. s \<in> set segs \<Longrightarrow> segment_ok nch s" and nch: "0 < nch"
    and pos: "0 < sum_list (map segment_length segs)"
  shows "processInBatches segs nch rate =
         Inr \<lparr>sampleRate = rate, frames = sum_list (map segment_length segs),
              channelData = assemble nch segs\<rparr>"
proof -
  define T where "T = sum_list (map segment_length segs)"
  have init: "(replicate nch (replicate T (0 :: 'a)), 0) = state_after T nch []"
    by (simp add: state_after_def map_replicate_const)
  have "foldl (\<lambda>acc segment.
                  case acc of Inl e \<Rightarrow> Inl e | Inr st \<Rightarrow> write_segment nch segment st)
           (Inr (state_after T nch [])) segs = Inr (state_after T nch ([] @ segs))"
    using ok nch by (intro write_all) (simp_all add: T_def)
  moreover have "fst (state_after T nch segs) = assemble nch segs"
    by (simp add: state_after_def assemble_def T_def)
  ultimately show ?thesis
    using nch pos totalLength_ok[of segs nch, OF ok nch]
    by (simp add: processInBatches_def concat_batches init flip: T_def)
qed


lemma reversed_indices: "map (\<lambda>i. c ! (length c - Suc i)) [0..<length c] = rev c"
  by (intro nth_equalityI) (simp_all add: rev_nth)

lemma reverseAudioBuffer_rev:
  "reverseAudioBuffer buffer =
     \<lparr>sampleRate = sampleRate buffer, frames = frames buffer,
      channelData = map rev (channelData buffer)\<rparr>"
  by (simp add: reverseAudioBuffer_def reversed_indices)

lemma reverse_samples_ok: "segment_ok nch s \<Longrightarrow> segment_ok nch (reverse_samples s)"
  by (cases "data s") (auto simp: segment_ok_def reverse_samples_def list_all_iff)

lemma reverse_samples_length:
  "data s \<noteq> [] \<Longrightarrow> segment_length (reverse_samples s) = segment_length s"
  by (cases "data s") (simp_all add: segment_length_def reverse_samples_def)

lemma assemble_reversed:
  assumes "\<And>s. s \<in> set S \<Longrightarrow> segment_ok nch s"
  shows "assemble nch (rev (map reverse_samples S)) = map rev (assemble nch S)"
proof -
  have "concat (map (\<lambda>s. data s ! c) (rev (map reverse_samples S))) =
        rev (concat (map (\<lambda>s. data s ! c) S))" if c: "c < nch" for c
  proof -
    have "data (reverse_samples s) ! c = rev (data s ! c)" if "s \<in> set S" for s
      using assms[OF that] c by (simp add: reverse_samples_def segment_ok_def)
    then have "map (\<lambda>s. data s ! c) (rev (map reverse_samples S)) =
               map rev (rev (map (\<lambda>s. data s ! c) S))"
      by (simp add: rev_map)
    then show ?thesis by (simp add: rev_concat)
  qed
  then show ?thesis by (simp add: assemble_def)
qed

subsection \<open>The reversal stage\<close>

text \<open>
  C6 as the spec states it: the reversal stage reverses the order of the segments and
  leaves the samples inside each segment, and of the assembled buffer, as they are. The
  processor reverses after assembling, with \<^verbatim>\<open>reverseAudioBuffer\<close>, sample by sample:
  the segments \<open>[1, 2]\<close> and \<open>[3, 4]\<close> assemble to \<open>[1, 2, 3, 4]\<close> and are written out
  as \<open>[4, 3, 2, 1]\<close>, where the reversed order of the whole segments is \<open>[3, 4, 1, 2]\<close>.
\<close>

theorem reversal_is_not_segment_reversal:
  "map_sum id (channelData \<circ> reverseAudioBuffer) (processInBatches two_segments 1 8000)
     = Inr [[4, 3, 2, 1]] \<and>
   map_sum id channelData (processInBatches (rev two_segments) 1 8000) = Inr [[3, 4, 1, 2]] \<and>
   map_sum id (channelData \<circ> reverseAudioBuffer) (processInBatches two_segments 1 8000)
     \<noteq> map_sum id channelData (processInBatches (rev two_segments) 1 8000)"
  by code_simp

text \<open>
  C6, amended: in the processor the reversal stage reverses every channel of the
  assembled buffer sample by sample; the result is the buffer assembled from the segments
  in reversed order with the samples inside each segment reversed too. In the editor the
  reversal reverses the order of the reordered spans and nothing else.
\<close>

theorem reversal_reverses_samples:
  "list_all (segment_ok nch) S \<Longrightarrow> 0 < nch \<Longrightarrow> 0 < sum_list (map segment_length S) \<Longrightarrow>
   (\<exists>buf. processInBatches S nch rate = Inr buf \<and>
          channelData buf = assemble nch S \<and>
          channelData (reverseAudioBuffer buf) = map rev (assemble nch S) \<and>
          processInBatches (rev (map reverse_samples S)) nch rate =
            Inr (reverseAudioBuffer buf)) \<and>
   editor_order etype True spans = rev (reorderSegments etype spans)"
proof (intro conjI)
  assume ok: "list_all (segment_ok nch) S" and nch: "0 < nch"
    and pos: "0 < sum_list (map segment_length S)"
  let ?R = "rev (map reverse_samples S)"
  let ?buf = "\<lparr>sampleRate = rate, frames = sum_list (map segment_length S),
              channelData = assemble nch S\<rparr>"
  have okS: "\<And>s. s \<in> set S \<Longrightarrow> segment_ok nch s"
    using ok by (simp add: list_all_iff)
  have okR: "\<And>s. s \<in> set ?R \<Longrightarrow> segment_ok nch s"
    using okS by (auto simp: reverse_samples_ok)
  have "segment_length (reverse_samples s) = segment_length s" if "s \<in> set S" for s
    using okS[OF that] nch by (intro reverse_samples_length segment_ok_data)
  then have "map segment_length (map reverse_samples S) = map segment_length S"
    by simp
  then have len: "sum_list (map segment_length ?R) = sum_list (map segment_length S)"
    by (simp add: rev_map[symmetric] del: map_map)
  have p1: "processInBatches S nch rate = Inr ?buf"
    using okS nch pos by (rule processInBatches_ok)
  have p2: "processInBatches ?R nch rate = Inr (reverseAudioBuffer ?buf)"
    using processInBatches_ok[of ?R nch rate, OF okR nch] pos len
    by (simp add: reverseAudioBuffer_rev assemble_reversed[OF okS])
  show "\<exists>buf. processInBatches S nch rate = Inr buf \<and>
          channelData buf = assemble nch S \<and>
          channelData (reverseAudioBuffer buf) = map rev (assemble nch S) \<and>
          processInBatches ?R nch rate = Inr (reverseAudioBuffer buf)"
    using p1 p2 by (intro exI[of _ ?buf]) (simp add: reverseAudioBuffer_rev)
  show "editor_order etype True spans = rev (reorderSegments etype spans)"
    by (simp add: editor_order_def)
qed

text \<open>The theorem at the two segments \<open>[1, 2]\<close> and \<open>[3, 4]\<close> and at three spans.\<close>

theorem reversal_reverses_samples_witness:
  "(\<exists>buf. processInBatches two_segments 1 8000 = Inr buf \<and>
          channelData buf = [[1, 2, 3, 4]] \<and>
          channelData (reverseAudioBuffer buf) = [[4, 3, 2, 1]] \<and>
          processInBatches (rev (map reverse_samples two_segments)) 1 8000 =
            Inr (reverseAudioBuffer buf)) \<and>
   editor_order oddEven True ([(0, 1), (1, 2), (2, 3)] :: (real \<times> real) list)
     = [(1, 2), (2, 3), (0, 1)]"
proof -
  have r: "reorderSegments oddEven ([(0, 1), (1, 2), (2, 3)] :: (real \<times> real) list)
      = [(0, 1), (2, 3), (1, 2)]"
    by (simp add: reorderSegments_def filter_index_def upt_rec)
  show ?thesis
    using reversal_reverses_samples[of 1 two_segments 8000 oddEven
        "[(0, 1), (1, 2), (2, 3)] :: (real \<times> real) list"]
    by (simp add: two_segments_def segment_ok_def segment_length_def assemble_def r)
qed

section \<open>Sample conservation\<close>











section \<open>The descriptor round trip\<close>

subsection \<open>Printing and reading decimal numbers\<close>

lemma digit_char_props:
  assumes "d < 10"
  shows "is_digit (digit_char d)" and "digit_val (digit_char d) = d"
proof -
  have "d = 0 \<or> d = 1 \<or> d = 2 \<or> d = 3 \<or> d = 4 \<or> d = 5 \<or> d = 6 \<or> d = 7
    \<or> d = 8 \<or> d = 9"
    using assms by presburger
  then have "is_digit (digit_char d) \<and> digit_val (digit_char d) = d"
    by (elim disjE) (simp_all add: is_digit_def digit_char_def digit_val_def)
  then show "is_digit (digit_char d)" and "digit_val (digit_char d) = d"
    by simp_all
qed

lemma digits_value_snoc: "digits_value (ds @ [c]) = 10 * digits_value ds + digit_val c"
  by (simp add: digits_value_def)

lemma nat_to_string_props:
  "nat_to_string n \<noteq> [] \<and> list_all is_digit (nat_to_string n) \<and>
   digits_value (nat_to_string n) = n"
proof (induction n rule: nat_to_string.induct)
  case (1 n)
  show ?case
  proof (cases "n < 10")
    case True
    then show ?thesis
      by (subst (1 2 3) nat_to_string.simps)
        (simp add: digit_char_props digits_value_def)
  next
    case False
    have "n mod 10 < 10" by simp
    then show ?thesis
      using False 1
      by (subst (1 2 3) nat_to_string.simps)
        (simp add: digit_char_props digits_value_snoc)
  qed
qed

lemma not_digit_chars:
  "\<not> is_digit CHR ''.''" "\<not> is_digit CHR ''b''" "\<not> is_digit CHR ''x''"
  "\<not> is_digit CHR ''X''" "\<not> is_digit CHR ''-''" "\<not> is_digit CHR ''+''"
  "\<not> is_digit CHR ''I''" "\<not> is_digit CHR ''e''" "\<not> is_digit CHR ''E''"
  by (simp_all add: is_digit_def)

lemma digit_not_space: "is_digit c \<Longrightarrow> \<not> is_space c"
  by (auto simp: is_digit_def is_space_def)

lemma frac_digits_decimal:
  assumes "0 \<le> f" "f < 1" "f * 10 ^ e = real m" "e \<le> k"
  shows "\<exists>ds. frac_digits k f = Some ds \<and> list_all is_digit ds \<and> frac_value ds = f"
  using assms
proof (induction k arbitrary: f e m)
  case 0
  then have "f = real m" by simp
  with 0 have "f = 0" by simp
  then show ?case by simp
next
  case (Suc k)
  show ?case
  proof (cases "f = 0")
    case True
    then show ?thesis by simp
  next
    case False
    have e0: "e \<noteq> 0"
    proof
      assume "e = 0"
      then have "f = real m" using Suc.prems(3) by simp
      then show False using Suc.prems(1,2) False by simp
    qed
    then obtain e' where e': "e = Suc e'" by (cases e) auto
    define d where "d = nat \<lfloor>f * 10\<rfloor>"
    define f' where "f' = f * 10 - of_int \<lfloor>f * 10\<rfloor>"
    have d0: "0 \<le> \<lfloor>f * 10\<rfloor>" using Suc.prems(1) by simp
    have "f * 10 < 10" using Suc.prems(2) by simp
    then have "\<lfloor>f * 10\<rfloor> < 10" by linarith
    then have d10: "d < 10" unfolding d_def using d0 by linarith
    have rd: "real d = of_int \<lfloor>f * 10\<rfloor>" using d0 by (simp add: d_def)
    have f'0: "0 \<le> f'" and f'1: "f' < 1"
      unfolding f'_def by linarith+
    have eq: "f' * 10 ^ e' = real m - real (d * 10 ^ e')"
      using Suc.prems(3) by (simp add: f'_def rd e' algebra_simps)
    moreover have "0 \<le> f' * 10 ^ e'" using f'0 by simp
    ultimately have "real (d * 10 ^ e') \<le> real m" by linarith
    then have "d * 10 ^ e' \<le> m" by (simp only: of_nat_le_iff)
    then have "real (m - d * 10 ^ e') = real m - real (d * 10 ^ e')"
      by (rule of_nat_diff)
    then have "f' * 10 ^ e' = real (m - d * 10 ^ e')"
      using eq by simp
    moreover have "e' \<le> k" using Suc.prems(4) e' by simp
    ultimately obtain ds where ds: "frac_digits k f' = Some ds" "list_all is_digit ds"
        "frac_value ds = f'"
      using Suc.IH[OF f'0 f'1] by blast
    have "frac_value (digit_char d # ds) = f"
      using ds(3) digit_char_props(2)[OF d10] by (simp add: rd f'_def)
    then show ?thesis
      using False ds digit_char_props(1)[OF d10]
      by (simp add: d_def[symmetric] f'_def[symmetric])
  qed
qed


lemma split_on_no_sep: "sep \<notin> set xs \<Longrightarrow> split_on sep xs = [xs]"
  by (induction xs) auto

lemma split_on_append_sep:
  "sep \<notin> set xs \<Longrightarrow> split_on sep (xs @ sep # ys) = xs # split_on sep ys"
  by (induction xs) auto

lemma digits_head:
  assumes "ip \<noteq> []" "list_all is_digit ip"
  shows "dropWhile is_space (ip @ r) = ip @ r"
    and "take 1 (ip @ r) \<noteq> ''-''" and "take 1 (ip @ r) \<noteq> ''+''"
    and "take 8 (ip @ r) \<noteq> ''Infinity''"
    and "take 2 ip \<noteq> ''0x''" and "take 2 ip \<noteq> ''0X''"
proof -
  obtain c cs where ip: "ip = c # cs" using assms(1) by (cases ip) auto
  then have c: "is_digit c" using assms(2) by simp
  then have ns: "\<not> is_space c" by (rule digit_not_space)
  show "dropWhile is_space (ip @ r) = ip @ r" using ns by (simp add: ip)
  show "take 1 (ip @ r) \<noteq> ''-''" using c not_digit_chars by (auto simp: ip)
  show "take 1 (ip @ r) \<noteq> ''+''" using c not_digit_chars by (auto simp: ip)
  show "take 8 (ip @ r) \<noteq> ''Infinity''" using c not_digit_chars by (auto simp: ip)
  show "take 2 ip \<noteq> ''0x''"
  proof (cases cs)
    case Nil
    then show ?thesis
      using ip by auto
  next
    case (Cons c' cs')
    then have "is_digit c'" using assms(2) ip by simp
    then show ?thesis using Cons ip not_digit_chars by auto
  qed
  show "take 2 ip \<noteq> ''0X''"
  proof (cases cs)
    case Nil
    then show ?thesis
      using ip by auto
  next
    case (Cons c' cs')
    then have "is_digit c'" using assms(2) ip by simp
    then show ?thesis using Cons ip not_digit_chars by auto
  qed
qed


lemma parseInt_digits:
  assumes "ip \<noteq> []" "list_all is_digit ip"
  shows "parseInt ip = Some (int (digits_value ip))"
proof -
  have tw: "takeWhile is_digit ip = ip"
    using assms(2) by (simp add: list_all_iff)
  show ?thesis
    using digits_head(1-3)[OF assms, of "[]"] digits_head(5,6)[OF assms] assms(1)
    by (simp add: parseInt_def Let_def tw)
qed

lemma parseFloat_decimal_string:
  assumes "ip \<noteq> []" "list_all is_digit ip" "list_all is_digit fs"
  shows "parseFloat (ip @ (if fs = [] then [] else ''.'' @ fs)) =
         Num (real (digits_value ip) + frac_value fs)"
proof -
  let ?r = "if fs = [] then [] else ''.'' @ fs"
  have ipd: "\<And>x. x \<in> set ip \<Longrightarrow> is_digit x"
    using assms(2) by (simp add: list_all_iff)
  have tw: "takeWhile is_digit (ip @ ?r) = ip"
    using ipd not_digit_chars(1) by (simp add: takeWhile_append2)
  have dw: "dropWhile is_digit (ip @ ?r) = ?r"
    using ipd not_digit_chars(1) by (simp add: dropWhile_append2)
  have twf: "takeWhile is_digit fs = fs" and dwf: "dropWhile is_digit fs = []"
    using assms(3) by (simp_all add: list_all_iff)
  show ?thesis
    using digits_head(1-4)[OF assms(1,2), of ?r] assms(1)
    by (simp add: parseFloat_def Let_def tw dw twf dwf exponent_part_def scale10_def)
qed

lemma number_to_string_decimal:
  assumes lo: "1 / 10 ^ 6 \<le> x" and hi: "x < 10 ^ 21" and dec: "x * 10 ^ e = real m"
    and e: "e \<le> 25"
  shows "\<exists>s. number_to_string x = Some s \<and> CHR ''b'' \<notin> set s \<and> s \<noteq> [] \<and>
             parseFloat s = Num x"
proof -
  define n where "n = nat \<lfloor>x\<rfloor>"
  define f where "f = x - of_int \<lfloor>x\<rfloor>"
  have "(0 :: real) < 1 / 10 ^ 6" by simp
  then have x0: "0 < x" using lo by linarith
  have rn: "real n = of_int \<lfloor>x\<rfloor>" using x0 by (simp add: n_def)
  have f0: "0 \<le> f" and f1: "f < 1" unfolding f_def by linarith+
  have eq: "f * 10 ^ e = real m - real (n * 10 ^ e)"
    using dec by (simp add: f_def rn[symmetric] algebra_simps)
  moreover have "0 \<le> f * 10 ^ e" using f0 by simp
  ultimately have "real (n * 10 ^ e) \<le> real m" by linarith
  then have "n * 10 ^ e \<le> m" by (simp only: of_nat_le_iff)
  then have "real (m - n * 10 ^ e) = real m - real (n * 10 ^ e)" by (rule of_nat_diff)
  then have "f * 10 ^ e = real (m - n * 10 ^ e)" using eq by simp
  then obtain fs where fs: "frac_digits 25 f = Some fs" "list_all is_digit fs"
      "frac_value fs = f"
    using frac_digits_decimal[OF f0 f1 _ e] by blast
  define s where "s = nat_to_string n @ (if fs = [] then [] else ''.'' @ fs)"
  have np: "nat_to_string n \<noteq> []" "list_all is_digit (nat_to_string n)"
      "digits_value (nat_to_string n) = n"
    using nat_to_string_props[of n] by simp_all
  have "number_to_string x = Some s"
    using x0 lo hi fs(1) by (simp add: number_to_string_def s_def n_def f_def)
  moreover have "CHR ''b'' \<notin> set s"
    using np(2) fs(2) not_digit_chars(2) by (auto simp: s_def list_all_iff)
  moreover have "s \<noteq> []" using np(1) by (simp add: s_def)
  moreover have "parseFloat s = Num x"
    unfolding s_def using parseFloat_decimal_string[OF np(1,2) fs(2)]
    by (simp add: np(3) fs(3) rn f_def)
  ultimately show ?thesis by blast
qed


lemma frac_digits_zero: "frac_digits k 0 = Some []"
  by (cases k) simp_all

lemma number_to_string_nat:
  assumes "0 < k" "k \<le> 10"
  shows "number_to_string (real k) = Some (nat_to_string k)"
proof -
  have "real k < 10 ^ 21" using assms(2) by simp
  moreover have "1 / 10 ^ 6 \<le> real k" using assms(1) by simp
  ultimately show ?thesis
    using assms(1) by (simp add: number_to_string_def not_less frac_digits_zero)
qed

lemma parse_generated:
  assumes s: "CHR ''b'' \<notin> set s"
    and flag: "flag = CHR ''t'' \<or> flag = CHR ''f''"
    and ty: "CHR ''b'' \<notin> set ty" and ps: "CHR ''b'' \<notin> set ps"
  shows "split_on CHR ''b'' (ty @ (''b'' @ ps) @ (''b'' @ s) @ [flag]) = [ty, ps, s @ [flag]]"
proof -
  have "CHR ''b'' \<notin> set (s @ [flag])" using s flag by auto
  then have "split_on CHR ''b'' (s @ [flag]) = [s @ [flag]]"
    by (rule split_on_no_sep)
  then have "split_on CHR ''b'' (ps @ CHR ''b'' # s @ [flag]) = [ps, s @ [flag]]"
    using ps by (simp add: split_on_append_sep)
  then have "split_on CHR ''b'' (ty @ CHR ''b'' # ps @ CHR ''b'' # s @ [flag]) =
      [ty, ps, s @ [flag]]"
    using ty by (simp add: split_on_append_sep)
  then show ?thesis by simp
qed

subsection \<open>Generating and parsing a code\<close>

text \<open>
  C2: for all valid parameters with a scheme other than \<open>none\<close> (Split with 2 to 10
  parts, or OddEven; an interval in \<open>[0.001, 10]\<close>; either value of the reverse flag),
  the generator returns a code and the parser, given that code, accepts it and sets the
  decoder to exactly these parameters: the type, the parts (for Split; OddEven has none
  and the decoder's count stays as it was), the interval and the flag. The interval is
  a number as the language prints it, a decimal fraction: \<open>m / 10\<^sup>e\<close> with at most 25
  digits after the point (a double in this range prints with at most 19).
\<close>

theorem descriptor_round_trip:
  assumes scheme: "(encodingType st = split \<and> 2 \<le> numberOfParts st \<and> numberOfParts st \<le> 10)
                   \<or> encodingType st = oddEven"
    and lo: "1 / 1000 \<le> interval st" and hi: "interval st \<le> 10"
    and dec: "interval st * 10 ^ e = real m" and e: "e \<le> 25"
  shows "\<exists>code. generateEncodingCode st = Some code \<and>
           parseEncodingCode code dst =
             (True,
              dst\<lparr>decodingType := encodingType st,
                  decodeNumberOfParts :=
                    (if encodingType st = split then numberOfParts st
                     else decodeNumberOfParts dst),
                  decodeInterval := interval st,
                  isDecodeReversed := isReversed st\<rparr>)"
proof -
  define x where "x = interval st"
  define flag where "flag = (if isReversed st then CHR ''t'' else CHR ''f'')"
  have "(1 :: real) / 10 ^ 6 \<le> 1 / 1000" by simp
  then have lo6: "1 / 10 ^ 6 \<le> x" using lo unfolding x_def by linarith
  have hi21: "x < 10 ^ 21" using hi unfolding x_def by simp
  obtain s where s: "number_to_string x = Some s" "CHR ''b'' \<notin> set s" "s \<noteq> []"
      "parseFloat s = Num x"
    using number_to_string_decimal[OF lo6 hi21, of e m] dec e unfolding x_def by blast
  have fl: "flag = CHR ''t'' \<or> flag = CHR ''f''" by (simp add: flag_def)
  have rev: "(flag = CHR ''t'') = isReversed st" by (simp add: flag_def)
  have nfl: "\<not> (flag \<noteq> CHR ''t'' \<and> flag \<noteq> CHR ''f'')" using fl by auto
  have ic: "interval_check (Num x) = Some x"
    using lo hi by (simp add: interval_check_def x_def)
  from scheme show ?thesis
  proof
    assume sp: "encodingType st = split \<and> 2 \<le> numberOfParts st \<and> numberOfParts st \<le> 10"
    define k where "k = numberOfParts st"
    have k: "2 \<le> k" "k \<le> 10" using sp by (simp_all add: k_def)
    have ks: "number_to_string (real k) = Some (nat_to_string k)"
      using k by (intro number_to_string_nat) simp_all
    have np: "nat_to_string k \<noteq> []" "list_all is_digit (nat_to_string k)"
        "digits_value (nat_to_string k) = k"
      using nat_to_string_props[of k] by simp_all
    have nb: "CHR ''b'' \<notin> set (nat_to_string k)"
      using np(2) not_digit_chars(2) by (auto simp: list_all_iff)
    have pi: "parts_check (parseInt (nat_to_string k)) = Some k"
      using k by (simp add: parseInt_digits[OF np(1,2)] np(3) parts_check_def)
    define code where "code = ''s'' @ (''b'' @ nat_to_string k) @ (''b'' @ s) @ [flag]"
    have gen: "generateEncodingCode st = Some code"
      using sp s(1) ks
      by (simp add: generateEncodingCode_def code_def flag_def x_def k_def)
    have sp3: "split_on CHR ''b'' code = [''s'', nat_to_string k, s @ [flag]]"
      unfolding code_def using s(2) fl _ nb
      by (rule parse_generated) simp
    have "parse_checks code =
        Inr \<lparr>p_type = split, p_parts = Some k, p_interval = x, p_reverse = isReversed st\<rparr>"
      using nfl by (simp add: parse_checks_def Let_def sp3 s(3,4) ic pi rev)
    then have "parseEncodingCode code dst =
        (True, dst\<lparr>decodingType := split, decodeNumberOfParts := k, decodeInterval := x,
                  isDecodeReversed := isReversed st\<rparr>)"
      by (simp add: parseEncodingCode_def)
    then show ?thesis
      using gen sp by (simp add: x_def k_def)
  next
    assume oe: "encodingType st = oddEven"
    define code where "code = ''oe'' @ (''b'' @ []) @ (''b'' @ s) @ [flag]"
    have gen: "generateEncodingCode st = Some code"
      using oe s(1) by (simp add: generateEncodingCode_def code_def flag_def x_def)
    have sp3: "split_on CHR ''b'' code = [''oe'', [], s @ [flag]]"
      unfolding code_def using s(2) fl
      by (rule parse_generated) simp_all
    have "parse_checks code =
        Inr \<lparr>p_type = oddEven, p_parts = None, p_interval = x, p_reverse = isReversed st\<rparr>"
      using nfl by (simp add: parse_checks_def Let_def sp3 s(3,4) ic rev)
    then have "parseEncodingCode code dst =
        (True, dst\<lparr>decodingType := oddEven, decodeInterval := x,
                  isDecodeReversed := isReversed st\<rparr>)"
      by (simp add: parseEncodingCode_def)
    then show ?thesis
      using gen oe by (simp add: x_def)
  qed
qed

text \<open>
  The theorem at Split with 5 parts, interval 0.2, reversed: the code is
  \<^verbatim>\<open>sb5b0.2t\<close>.
\<close>

theorem descriptor_round_trip_witness:
  "generateEncodingCode
     \<lparr>encodingType = split, numberOfParts = 5, interval = 2 / 10, isReversed = True\<rparr>
     = Some ''sb5b0.2t'' \<and>
   parseEncodingCode ''sb5b0.2t'' initial_decode_state =
     (True, \<lparr>decodingType = split, decodeNumberOfParts = 5, decodeInterval = 2 / 10,
             isDecodeReversed = True\<rparr>)"
proof -
  have f: "frac_digits 25 (2 / 10) = Some ''2''"
    by code_simp
  have n: "nat_to_string 5 = ''5''" "nat_to_string 0 = ''0''"
    by (simp_all add: nat_to_string.simps digit_char_def)
  have g: "generateEncodingCode
     \<lparr>encodingType = split, numberOfParts = 5, interval = 2 / 10, isReversed = True\<rparr>
     = Some ''sb5b0.2t''"
    using f n by (simp add: generateEncodingCode_def number_to_string_def frac_digits_zero)
  show ?thesis
    using descriptor_round_trip[of
        "\<lparr>encodingType = split, numberOfParts = 5, interval = 2 / 10, isReversed = True\<rparr>"
        1 2 initial_decode_state] g
    by (simp add: initial_decode_state_def)
qed

end
